theory Spec2Isabelle
  imports Complex_Main "HOL-Library.Multiset"
begin

section \<open>Scores: Python floats under comparison\<close>

text \<open>
  The three feature-selection notebooks compare cross-validated errors with Python's
  float \<open><\<close>. A float is a real number, one of the two infinities, or NaN; the
  searches never do arithmetic on a score, they only compare and store it, so the finite
  floats are embedded in the reals. \<open>score_lt\<close> is Python's \<open><\<close>: every comparison
  with NaN is false. \<open>score_le\<close> is Python's \<open><=\<close>.
\<close>

datatype score = NaN | NInf | Fin real | PInf

fun score_lt :: "score \<Rightarrow> score \<Rightarrow> bool" where
  "score_lt (Fin a) (Fin b) = (a < b)"
| "score_lt (Fin a) PInf = True"
| "score_lt NInf (Fin b) = True"
| "score_lt NInf PInf = True"
| "score_lt _ _ = False"

definition score_le :: "score \<Rightarrow> score \<Rightarrow> bool" where
  "score_le a b = (a \<noteq> NaN \<and> b \<noteq> NaN \<and> \<not> score_lt b a)"

text \<open>Python truthiness of the values the notebooks test with \<open>if\<close>.\<close>

definition truthy_score :: "score \<Rightarrow> bool" where
  "truthy_score m = (m \<noteq> Fin 0)"

definition truthy_feature :: "string \<Rightarrow> bool" where
  "truthy_feature f = (f \<noteq> [])"

section \<open>The Solution class\<close>

text \<open>
  \<^verbatim>\<open>
  class Solution:
      features = list()
      mse = float('Inf')

      def __init__(self, y):
          pred = [y.mean()] * len(y)
          self.mse = mean_squared_error(y, pred)

      def update(self, features, mse):
          if mse < self.mse:
              self.features = features
              self.mse = mse
              return True
          return False
  \<close>
  The class is defined three times, once per notebook, with the same \<open>update\<close>. The
  constructor of the complete-enumeration and forward notebooks sets only \<open>mse\<close>, so
  \<open>features\<close> reads the class attribute, the empty list. The error of the mean
  predictor is computed by the statistics library from the label column; it is the
  parameter \<open>baseline\<close>.
\<close>

record Solution =
  features :: "string list"
  mse :: score

definition Solution_init :: "score \<Rightarrow> Solution" where
  "Solution_init baseline = \<lparr>features = [], mse = baseline\<rparr>"

text \<open>\<open>update\<close> returns the Boolean of the method and the object after the call.\<close>

definition update :: "Solution \<Rightarrow> string list \<Rightarrow> score \<Rightarrow> bool \<times> Solution" where
  "update self fs m =
     (if score_lt m (mse self) then (True, \<lparr>features = fs, mse = m\<rparr>)
      else (False, self))"

text \<open>
  The constructor of the backward notebook:
  \<^verbatim>\<open>
      def __init__(self, y, features=None, mse=None):
          if features and mse:
              self.features = features
              self.mse = mse
          else:
              pred = [y.mean()] * len(y)
              self.features = list()
              self.mse = mean_squared_error(y, pred)
  \<close>
  The two optional arguments are tested for truthiness: \<open>None\<close>, the empty list and the
  float zero are false.
\<close>

definition Solution_init_backward ::
  "score \<Rightarrow> string list option \<Rightarrow> score option \<Rightarrow> Solution" where
  "Solution_init_backward baseline fs_arg mse_arg =
     (case (fs_arg, mse_arg) of
        (Some fs, Some m) \<Rightarrow>
          if fs \<noteq> [] \<and> truthy_score m then \<lparr>features = fs, mse = m\<rparr>
          else \<lparr>features = [], mse = baseline\<rparr>
      | _ \<Rightarrow> \<lparr>features = [], mse = baseline\<rparr>)"

section \<open>Complete enumeration\<close>

text \<open>
  The scoring oracle (the cross-validation of a model on the columns of a subset) is a
  function from the list of column names to a score. \<^verbatim>\<open>itertools.combinations(xs, r)\<close>
  yields the sub-sequences of \<open>xs\<close> of length \<open>r\<close>, in lexicographic order of the
  positions chosen. The notebooks catch no exception: a call of the oracle that raises
  ends the cell, and the searches below are the runs in which every call returns a float.
\<close>

type_synonym scorer = "string list \<Rightarrow> score"

fun combinations :: "'a list \<Rightarrow> nat \<Rightarrow> 'a list list" where
  "combinations xs 0 = [[]]"
| "combinations [] (Suc r) = []"
| "combinations (x # xs) (Suc r) = map ((#) x) (combinations xs r) @ combinations xs (Suc r)"

text \<open>
  \<^verbatim>\<open>
  best = Solution(y)

  for n_features in range(1, len(features)+1):
      subsets = combinations(features, n_features)

      for subset in subsets:
          Xr = X[list(subset)]
          mses = cross_val_score(estimator=model, X=Xr, y=y, cv=kfold, ...)
          mse = -np.average(mses)
          best.update(features=subset, mse=mse)
  \<close>
  The state of the loops is the tracker together with the list of the subsets the oracle
  has been called on so far, in call order.
\<close>

definition evaluate :: "scorer \<Rightarrow> string list \<Rightarrow> Solution \<times> string list list \<Rightarrow> Solution \<times> string list list" where
  "evaluate score sub st =
     (let m = score sub
      in (snd (update (fst st) sub m), snd st @ [sub]))"

definition exhaustive_search :: "scorer \<Rightarrow> score \<Rightarrow> string list \<Rightarrow> Solution \<times> string list list" where
  "exhaustive_search score baseline fs =
     fold (\<lambda>n_features st. fold (evaluate score) (combinations fs n_features) st)
       [1..<length fs + 1] (Solution_init baseline, [])"

text \<open>The subsets in the order in which the two loops reach them.\<close>

definition calls_of :: "string list \<Rightarrow> string list list" where
  "calls_of fs = concat (map (combinations fs) [1..<length fs + 1])"

text \<open>A sequence of \<open>update\<close> calls on one tracker, as any of the three searches issues it.\<close>

fun run_updates :: "Solution \<Rightarrow> (string list \<times> score) list \<Rightarrow> Solution" where
  "run_updates self [] = self"
| "run_updates self ((fs, m) # cs) = run_updates (snd (update self fs m)) cs"

section \<open>Forward stepwise selection\<close>

text \<open>
  \<^verbatim>\<open>
  all_features = list(features)
  current_features = list()
  best = Solution(y)

  while current_features != all_features:
      selected_feature = None

      for feature in set(all_features) - set(current_features):
          new_features = current_features + [feature]
          mses = cross_val_score(estimator=get_model(new_features), ...)
          mse = -np.average(mses)

          if best.update(new_features, mse):
              selected_feature = feature

      if selected_feature:
          current_features.append(selected_feature)
      else:
          break
  \<close>
  The \<open>for\<close> loop iterates over a Python set, whose order the language leaves open. The
  order is the parameter \<open>set_order\<close>: in the round that starts from \<open>cur\<close> the
  elements of the set are visited by increasing \<open>set_order cur\<close>. Every enumeration of
  the set without repetition is obtained from some \<open>set_order\<close>.
\<close>

definition remaining :: "(string list \<Rightarrow> string \<Rightarrow> nat) \<Rightarrow> string list \<Rightarrow> string list \<Rightarrow> string list" where
  "remaining set_order all_features cur =
     sort_key (set_order cur) (filter (\<lambda>f. f \<notin> set cur) (remdups all_features))"

text \<open>The position of a feature in a list: the key that sorts a set into that list.\<close>

definition position :: "string list \<Rightarrow> string \<Rightarrow> nat" where
  "position ys f = length (takeWhile (\<lambda>x. x \<noteq> f) ys)"

definition forward_step :: "scorer \<Rightarrow> string list \<Rightarrow> string \<Rightarrow> Solution \<times> string option \<Rightarrow> Solution \<times> string option" where
  "forward_step score cur feature st =
     (let new_features = cur @ [feature];
          m = score new_features;
          r = update (fst st) new_features m
      in (snd r, if fst r then Some feature else snd st))"

definition forward_round :: "scorer \<Rightarrow> string list \<Rightarrow> string list \<Rightarrow> Solution \<Rightarrow> Solution \<times> string option" where
  "forward_round score cur candidates best = fold (forward_step score cur) candidates (best, None)"

text \<open>
  The \<open>while\<close> loop; the last component counts the executions of its body. The test
  \<open>if selected_feature\<close> is false for \<open>None\<close> and for the empty string.
\<close>

function forward_loop ::
  "(string list \<Rightarrow> string \<Rightarrow> nat) \<Rightarrow> scorer \<Rightarrow> string list \<Rightarrow> string list \<Rightarrow> Solution \<Rightarrow> nat
     \<Rightarrow> string list \<times> Solution \<times> nat" where
  "forward_loop set_order score all_features cur best n =
     (if cur \<noteq> all_features then
        (case forward_round score cur (remaining set_order all_features cur) best of
           (best', selected_feature) \<Rightarrow>
             (case selected_feature of
                Some f \<Rightarrow>
                  if truthy_feature f
                  then forward_loop set_order score all_features (cur @ [f]) best' (Suc n)
                  else (cur, best', Suc n)
              | None \<Rightarrow> (cur, best', Suc n)))
      else (cur, best, n))"
  by pat_completeness auto
termination
proof (relation "measure (\<lambda>(set_order, score, all_features, cur, best, n). card (set all_features - set cur))")
  show "wf (measure (\<lambda>(set_order, score, all_features, cur, best, n). card (set all_features - set cur)))"
    by simp
next
  fix set_order :: "string list \<Rightarrow> string \<Rightarrow> nat" and score :: scorer
    and all_features cur :: "string list" and best best' :: Solution and n :: nat
    and selected_feature f
  assume r: "(best', selected_feature) = forward_round score cur (remaining set_order all_features cur) best"
    "selected_feature = Some f"
  have sel: "\<And>xs b s b'. fold (forward_step score cur) xs (b, s) = (b', Some f) \<Longrightarrow> s = Some f \<or> f \<in> set xs"
  proof -
    fix xs b s b'
    show "fold (forward_step score cur) xs (b, s) = (b', Some f) \<Longrightarrow> s = Some f \<or> f \<in> set xs"
      by (induction xs arbitrary: b s) (auto simp: forward_step_def Let_def split: if_splits)
  qed
  from r have "fold (forward_step score cur) (remaining set_order all_features cur) (best, None) = (best', Some f)"
    by (simp add: forward_round_def [symmetric])
  from sel [OF this] have "f \<in> set all_features - set cur"
    by (simp add: remaining_def)
  then have "card (set all_features - set (cur @ [f])) < card (set all_features - set cur)"
    by (intro psubset_card_mono) auto
  then show "((set_order, score, all_features, cur @ [f], best', Suc n), (set_order, score, all_features, cur, best, n))
      \<in> measure (\<lambda>(set_order, score, all_features, cur, best, n). card (set all_features - set cur))"
    by simp
qed

definition forward_search ::
  "(string list \<Rightarrow> string \<Rightarrow> nat) \<Rightarrow> scorer \<Rightarrow> score \<Rightarrow> string list \<Rightarrow> string list \<times> Solution \<times> nat" where
  "forward_search set_order score baseline fs =
     forward_loop set_order score fs [] (Solution_init baseline) 0"

section \<open>Backward stepwise selection\<close>

text \<open>
  \<^verbatim>\<open>
  current_features = list(features)
  best = Solution(y=y, features=current_features,
                  mse=-np.average(cross_val_score(estimator=get_model(current_features), X=X, ...)))

  while len(current_features) > 0:
      removed_feature = None

      for feature in current_features:
          new_features = [f for f in current_features if f != feature]
          mses = cross_val_score(estimator=get_model(new_features), ...)
          mse = -np.average(mses)

          if best.update(new_features, mse):
              removed_feature = feature

      if removed_feature:
          current_features.remove(removed_feature)
      else:
          break
  \<close>
  The tracker is built on the list object \<open>current_features\<close>, which \<open>remove\<close>
  mutates; \<open>remove\<close> runs only after an \<open>update\<close> of the same round has stored a fresh
  list in the tracker, so the tracker never shows the mutation.
\<close>

definition backward_step :: "scorer \<Rightarrow> string list \<Rightarrow> string \<Rightarrow> Solution \<times> string option \<Rightarrow> Solution \<times> string option" where
  "backward_step score cur feature st =
     (let new_features = filter (\<lambda>f. f \<noteq> feature) cur;
          m = score new_features;
          r = update (fst st) new_features m
      in (snd r, if fst r then Some feature else snd st))"

definition backward_round :: "scorer \<Rightarrow> string list \<Rightarrow> Solution \<Rightarrow> Solution \<times> string option" where
  "backward_round score cur best = fold (backward_step score cur) cur (best, None)"

function backward_loop :: "scorer \<Rightarrow> string list \<Rightarrow> Solution \<Rightarrow> nat \<Rightarrow> string list \<times> Solution \<times> nat" where
  "backward_loop score cur best n =
     (if length cur > 0 then
        (case backward_round score cur best of
           (best', removed_feature) \<Rightarrow>
             (case removed_feature of
                Some f \<Rightarrow>
                  if truthy_feature f
                  then backward_loop score (remove1 f cur) best' (Suc n)
                  else (cur, best', Suc n)
              | None \<Rightarrow> (cur, best', Suc n)))
      else (cur, best, n))"
  by pat_completeness auto
termination
proof (relation "measure (\<lambda>(score, cur, best, n). length cur)")
  show "wf (measure (\<lambda>(score, cur, best, n). length cur))"
    by simp
next
  fix score :: scorer and cur :: "string list" and best best' :: Solution and n :: nat
    and removed_feature f
  assume r: "(best', removed_feature) = backward_round score cur best"
    "removed_feature = Some f"
  have sel: "\<And>xs b s b'. fold (backward_step score cur) xs (b, s) = (b', Some f) \<Longrightarrow> s = Some f \<or> f \<in> set xs"
  proof -
    fix xs b s b'
    show "fold (backward_step score cur) xs (b, s) = (b', Some f) \<Longrightarrow> s = Some f \<or> f \<in> set xs"
      by (induction xs arbitrary: b s) (auto simp: backward_step_def Let_def split: if_splits)
  qed
  from r have "fold (backward_step score cur) cur (best, None) = (best', Some f)"
    by (simp add: backward_round_def [symmetric])
  from sel [OF this] have "f \<in> set cur"
    by simp
  then have "length (remove1 f cur) < length cur"
    by (simp add: length_remove1) (cases cur; simp)
  then show "((score, remove1 f cur, best', Suc n), (score, cur, best, n)) \<in> measure (\<lambda>(score, cur, best, n). length cur)"
    by simp
qed

definition backward_search :: "scorer \<Rightarrow> score \<Rightarrow> string list \<Rightarrow> string list \<times> Solution \<times> nat" where
  "backward_search score baseline fs =
     backward_loop score fs (Solution_init_backward baseline (Some fs) (Some (score fs))) 0"

section \<open>The common shape of a round\<close>

text \<open>
  The \<open>for\<close> loops of the forward and of the backward search have the same body, up to
  the subset built from the feature: the subset is scored, offered to the tracker, and
  the feature is remembered if the tracker took it.
\<close>

definition round_step :: "(string \<Rightarrow> string list) \<Rightarrow> scorer \<Rightarrow> string \<Rightarrow> Solution \<times> string option \<Rightarrow> Solution \<times> string option" where
  "round_step cand score feature st =
     (let r = update (fst st) (cand feature) (score (cand feature))
      in (snd r, if fst r then Some feature else snd st))"

section \<open>Instances used in the examples\<close>

text \<open>
  An oracle that gives every subset the same error, and the iteration order that visits
  the remaining features in the order of \<open>all_features\<close> (equal keys: the sort is stable).
\<close>

definition tied_scorer :: scorer where
  "tied_scorer s = Fin 5"

text \<open>The oracle of the worked example: ten minus the size of the subset.\<close>

definition toy_scorer :: scorer where
  "toy_scorer s = Fin (10 - real (length s))"

text \<open>
  An oracle that agrees with the worked example's on every subset without the name \<open>Z\<close>;
  an oracle under which the second feature of the universe is the better single
  predictor; and an oracle of a perfect fit, whose error is zero everywhere.
\<close>

definition masked_scorer :: scorer where
  "masked_scorer s = (if ''Z'' \<in> set s then NaN else Fin (10 - real (length s)))"

definition late_first_scorer :: scorer where
  "late_first_scorer s =
     (if s = [''B''] then Fin 1 else if s = [''A''] then Fin 2
      else if s = [''B'', ''A''] then Fin 0 else Fin 9)"

definition zero_scorer :: scorer where
  "zero_scorer s = Fin 0"

text \<open>An oracle whose cross-validation of the full universe \<open>[A, B]\<close> fails to a NaN.\<close>

definition nan_full_scorer :: scorer where
  "nan_full_scorer s = (if s = [''A'', ''B''] then NaN else Fin 1)"

definition list_order :: "string list \<Rightarrow> string \<Rightarrow> nat" where
  "list_order cur f = 0"

section \<open>Facts about the comparison\<close>

lemma score_lt_NaN_left [simp]: "\<not> score_lt NaN b"
  by simp

lemma score_lt_NaN_right [simp]: "\<not> score_lt a NaN"
  by (cases a) simp_all

lemma score_lt_irrefl [simp]: "\<not> score_lt a a"
  by (cases a) simp_all

lemma score_lt_trans: "score_lt a b \<Longrightarrow> score_lt b c \<Longrightarrow> score_lt a c"
  by (cases a; cases b; cases c) simp_all

lemma score_lt_asym: "score_lt a b \<Longrightarrow> \<not> score_lt b a"
  by (cases a; cases b) simp_all

lemma score_lt_total: "a \<noteq> NaN \<Longrightarrow> b \<noteq> NaN \<Longrightarrow> a \<noteq> b \<Longrightarrow> score_lt a b \<or> score_lt b a"
  by (cases a; cases b) auto

section \<open>The update method\<close>

text \<open>
  Claim C2. For every tracker and every candidate, \<open>update\<close> stores the candidate and
  returns true exactly when the candidate's score is strictly below the stored one;
  otherwise it returns false and the tracker is as before. A candidate whose score
  equals the stored score never replaces it.
\<close>

theorem update_strict_replace:
  "fst (update self fs m) = score_lt m (mse self)
   \<and> (score_lt m (mse self) \<longrightarrow> snd (update self fs m) = \<lparr>features = fs, mse = m\<rparr>)
   \<and> (\<not> score_lt m (mse self) \<longrightarrow> snd (update self fs m) = self)
   \<and> update self fs (mse self) = (False, self)"
  by (simp add: update_def)

theorem update_strict_replace_witness:
  "fst (update \<lparr>features = [''a''], mse = Fin 5\<rparr> [''b''] (Fin 3)) = score_lt (Fin 3) (Fin 5)
   \<and> snd (update \<lparr>features = [''a''], mse = Fin 5\<rparr> [''b''] (Fin 3)) = \<lparr>features = [''b''], mse = Fin 3\<rparr>
   \<and> snd (update \<lparr>features = [''a''], mse = Fin 5\<rparr> [''b''] (Fin 7)) = \<lparr>features = [''a''], mse = Fin 5\<rparr>
   \<and> update \<lparr>features = [''a''], mse = Fin 5\<rparr> [''b''] (Fin 5) = (False, \<lparr>features = [''a''], mse = Fin 5\<rparr>)"
  using update_strict_replace [of "\<lparr>features = [''a''], mse = Fin 5\<rparr>" "[''b'']" "Fin 3"]
    update_strict_replace [of "\<lparr>features = [''a''], mse = Fin 5\<rparr>" "[''b'']" "Fin 7"]
  by simp

text \<open>
  Claim C6. A NaN candidate score is never an improvement: for every tracker, \<open>update\<close>
  with NaN returns false and leaves the tracker unchanged, because \<open>NaN < x\<close> is false
  for every stored score \<open>x\<close>.
\<close>

theorem update_NaN_unchanged: "update self fs NaN = (False, self)"
  by (simp add: update_def)

section \<open>Sequences of updates\<close>

lemma forward_step_round_step: "forward_step score cur = round_step (\<lambda>f. cur @ [f]) score"
  by (intro ext) (simp add: forward_step_def round_step_def Let_def)

lemma backward_step_round_step: "backward_step score cur = round_step (\<lambda>f. filter (\<lambda>g. g \<noteq> f) cur) score"
  by (intro ext) (simp add: backward_step_def round_step_def Let_def)

lemma update_mse_cases:
  "mse (snd (update self fs m)) = mse self \<or> score_lt (mse (snd (update self fs m))) (mse self)"
  by (simp add: update_def)

lemma update_not_lt: "\<not> score_lt m (mse (snd (update self fs m)))"
  by (simp add: update_def)

lemma run_updates_snoc: "run_updates self (cs @ [(fs, m)]) = snd (update (run_updates self cs) fs m)"
  by (induction self cs rule: run_updates.induct) simp_all

lemma run_updates_mono:
  "mse (run_updates self cs) = mse self \<or> score_lt (mse (run_updates self cs)) (mse self)"
proof (induction self cs rule: run_updates.induct)
  case (1 self)
  show ?case by simp
next
  case (2 self fs m cs)
  from update_mse_cases [of self fs m] "2.IH" show ?case
    by (auto intro: score_lt_trans)
qed

lemma run_updates_mem: "mse (run_updates self cs) \<in> set (mse self # map snd cs)"
proof (induction self cs rule: run_updates.induct)
  case (1 self)
  show ?case by simp
next
  case (2 self fs m cs)
  have "mse (snd (update self fs m)) = mse self \<or> mse (snd (update self fs m)) = m"
    by (simp add: update_def)
  with "2.IH" show ?case by auto
qed

lemma run_updates_min: "c \<in> set (mse self # map snd cs) \<Longrightarrow> \<not> score_lt c (mse (run_updates self cs))"
proof (induction self cs rule: run_updates.induct)
  case (1 self)
  then show ?case by simp
next
  case (2 self fs m cs)
  let ?s = "snd (update self fs m)"
  from "2.prems" consider "c = mse self" | "c = m" | "c \<in> set (map snd cs)"
    by auto
  then show ?case
  proof cases
    case 1
    have "\<not> score_lt c (mse ?s)"
      using 1 update_mse_cases [of self fs m] by (auto dest: score_lt_asym)
    then show ?thesis
      using run_updates_mono [of ?s cs] by (auto dest: score_lt_trans)
  next
    case 2
    have "\<not> score_lt c (mse ?s)"
      using 2 by (simp add: update_not_lt)
    then show ?thesis
      using run_updates_mono [of ?s cs] by (auto dest: score_lt_trans)
  next
    case 3
    then show ?thesis using "2.IH" by simp
  qed
qed

lemma run_updates_NaN_stuck: "mse self = NaN \<Longrightarrow> run_updates self cs = self"
  by (induction self cs rule: run_updates.induct) (simp_all add: update_def)

lemma run_updates_not_NaN: "mse self \<noteq> NaN \<Longrightarrow> mse (run_updates self cs) \<noteq> NaN"
  using run_updates_mono [of self cs] by auto

text \<open>
  Claim C3, as the code has it. Along any sequence of \<open>update\<close> calls the stored score
  never goes up: each call leaves it as it was or makes it strictly smaller. When the
  initial score is not NaN, the stored score is never NaN, it is one of the scores seen
  so far (the initial one and the candidates'), each call leaves it below or equal to
  what it was, and it is below or equal to every score seen so far that is not NaN:
  it is the minimum of the initial score and the candidates' scores, NaN candidates
  left out. A tracker whose initial score is NaN never changes.
\<close>

theorem tracker_monotone_minimum:
  "(mse (run_updates self (cs @ [(fs, m)])) = mse (run_updates self cs)
      \<or> score_lt (mse (run_updates self (cs @ [(fs, m)]))) (mse (run_updates self cs)))
   \<and> (mse self \<noteq> NaN \<longrightarrow>
        mse (run_updates self cs) \<noteq> NaN
        \<and> mse (run_updates self cs) \<in> set (mse self # map snd cs)
        \<and> score_le (mse (run_updates self (cs @ [(fs, m)]))) (mse (run_updates self cs))
        \<and> (\<forall>c \<in> set (mse self # map snd cs). c \<noteq> NaN \<longrightarrow> score_le (mse (run_updates self cs)) c))
   \<and> (mse self = NaN \<longrightarrow> run_updates self cs = self)"
proof -
  have a: "mse (run_updates self (cs @ [(fs, m)])) = mse (run_updates self cs)
      \<or> score_lt (mse (run_updates self (cs @ [(fs, m)]))) (mse (run_updates self cs))"
    unfolding run_updates_snoc by (rule update_mse_cases)
  have b: "mse (run_updates self cs) \<in> set (mse self # map snd cs)"
    by (rule run_updates_mem)
  have c: "\<not> score_lt c (mse (run_updates self cs))" if "c \<in> set (mse self # map snd cs)" for c
    using that by (rule run_updates_min)
  have d: "mse (run_updates self ds) \<noteq> NaN" if "mse self \<noteq> NaN" for ds
    using that by (rule run_updates_not_NaN)
  have e: "score_le (mse (run_updates self (cs @ [(fs, m)]))) (mse (run_updates self cs))"
    if "mse self \<noteq> NaN"
    using a d [OF that, of cs] d [OF that, of "cs @ [(fs, m)]"]
    by (auto simp: score_le_def dest: score_lt_asym)
  have f: "\<forall>c \<in> set (mse self # map snd cs). c \<noteq> NaN \<longrightarrow> score_le (mse (run_updates self cs)) c"
    if "mse self \<noteq> NaN"
    using c d [OF that, of cs] unfolding score_le_def by blast
  have g: "run_updates self cs = self" if "mse self = NaN"
    using that by (rule run_updates_NaN_stuck)
  from a b d e f g show ?thesis by blast
qed

theorem tracker_monotone_minimum_witness:
  "mse (run_updates (Solution_init (Fin 10)) [([''a''], Fin 4), ([''b''], NaN), ([''c''], Fin 4), ([''d''], Fin 2)]) = Fin 2
   \<and> score_le (mse (run_updates (Solution_init (Fin 10)) ([([''a''], Fin 4), ([''b''], NaN), ([''c''], Fin 4)] @ [([''d''], Fin 2)])))
        (mse (run_updates (Solution_init (Fin 10)) [([''a''], Fin 4), ([''b''], NaN), ([''c''], Fin 4)]))
   \<and> score_le (mse (run_updates (Solution_init (Fin 10)) [([''a''], Fin 4), ([''b''], NaN), ([''c''], Fin 4), ([''d''], Fin 2)])) (Fin 4)
   \<and> run_updates \<lparr>features = [''a''], mse = NaN\<rparr> [([''b''], Fin 1)] = \<lparr>features = [''a''], mse = NaN\<rparr>"
  using tracker_monotone_minimum [of "Solution_init (Fin 10)" "[([''a''], Fin 4), ([''b''], NaN), ([''c''], Fin 4)]" "[''d'']" "Fin 2"]
    tracker_monotone_minimum [of "Solution_init (Fin 10)" "[([''a''], Fin 4), ([''b''], NaN), ([''c''], Fin 4), ([''d''], Fin 2)]" "[]" "Fin 0"]
    tracker_monotone_minimum [of "\<lparr>features = [''a''], mse = NaN\<rparr>" "[([''b''], Fin 1)]" "[]" "Fin 0"]
  by (simp add: Solution_init_def update_def score_le_def)

text \<open>
  Claim C3, as it is written, fails for a tracker that starts at NaN. The backward search
  builds such a tracker when the score of the full universe is NaN (NaN is true as a
  truth value, so the constructor takes it); the candidate with score 1 is then offered
  and refused, and the stored score stays NaN, which is neither equal to 1 nor below it.
\<close>

theorem tracker_NaN_counterexample:
  "Solution_init_backward (Fin 10) (Some [''A'', ''B'']) (Some (nan_full_scorer [''A'', ''B''])) =
     \<lparr>features = [''A'', ''B''], mse = NaN\<rparr>
   \<and> mse (run_updates \<lparr>features = [''A'', ''B''], mse = NaN\<rparr> [([''B''], Fin 1)]) = NaN
   \<and> NaN \<noteq> Fin 1
   \<and> \<not> score_le NaN (Fin 1)
   \<and> backward_search nan_full_scorer (Fin 10) [''A'', ''B''] =
       ([''A'', ''B''], \<lparr>features = [''A'', ''B''], mse = NaN\<rparr>, 1)"
  by code_simp

section \<open>One round of a stepwise search\<close>

declare forward_loop.simps [simp del] backward_loop.simps [simp del]

lemma round_step_apply:
  "round_step cand score x (b, s) =
     (if score_lt (score (cand x)) (mse b)
      then (\<lparr>features = cand x, mse = score (cand x)\<rparr>, Some x) else (b, s))"
  by (simp add: round_step_def Let_def update_def)

lemma round_best:
  "fst (fold (round_step cand score) xs (b, s)) = run_updates b (map (\<lambda>f. (cand f, score (cand f))) xs)"
  by (induction xs arbitrary: b s) (simp_all add: round_step_apply update_def)

lemma round_min:
  "g \<in> set xs \<Longrightarrow> \<not> score_lt (score (cand g)) (mse (fst (fold (round_step cand score) xs (b, s))))"
  unfolding round_best by (rule run_updates_min) auto

lemma round_fix:
  "(\<And>g. g \<in> set xs \<Longrightarrow> \<not> score_lt (score (cand g)) (mse b)) \<Longrightarrow> fold (round_step cand score) xs (b, s) = (b, s)"
  by (induction xs) (simp_all add: round_step_apply)

lemma round_idem:
  "fold (round_step cand score) xs (fst (fold (round_step cand score) xs (b, s)), s') =
     (fst (fold (round_step cand score) xs (b, s)), s')"
  by (rule round_fix) (rule round_min)

lemma round_cases:
  "fold (round_step cand score) xs (b, s) = (b', s') \<Longrightarrow>
     (b' = b \<and> s' = s) \<or>
     (\<exists>f \<in> set xs. s' = Some f \<and> b' = \<lparr>features = cand f, mse = score (cand f)\<rparr> \<and> score_lt (mse b') (mse b))"
proof (induction xs arbitrary: b s)
  case Nil
  then show ?case by simp
next
  case (Cons x xs)
  show ?case
  proof (cases "score_lt (score (cand x)) (mse b)")
    case True
    let ?bx = "\<lparr>features = cand x, mse = score (cand x)\<rparr>"
    from True Cons.prems have "fold (round_step cand score) xs (?bx, Some x) = (b', s')"
      by (simp add: round_step_apply)
    from Cons.IH [OF this] True show ?thesis
      by (auto intro: score_lt_trans)
  next
    case False
    with Cons.prems have "fold (round_step cand score) xs (b, s) = (b', s')"
      by (simp add: round_step_apply)
    from Cons.IH [OF this] show ?thesis by auto
  qed
qed

lemma round_keeps_above:
  "score_lt m (mse b) \<Longrightarrow> (\<And>g. g \<in> set xs \<Longrightarrow> \<not> score_lt (score (cand g)) m \<and> score (cand g) \<noteq> m)
     \<Longrightarrow> score_lt m (mse (fst (fold (round_step cand score) xs (b, s))))"
proof (induction xs arbitrary: b s)
  case Nil
  then show ?case by simp
next
  case (Cons x xs)
  show ?case
  proof (cases "score_lt (score (cand x)) (mse b)")
    case True
    have "m \<noteq> NaN" "score (cand x) \<noteq> NaN"
      using Cons.prems(1) True by auto
    moreover have "\<not> score_lt (score (cand x)) m" "score (cand x) \<noteq> m"
      using Cons.prems(2) [of x] by simp_all
    ultimately have "score_lt m (score (cand x))"
      using score_lt_total [of m "score (cand x)"] by auto
    then have "score_lt m (mse (fst (fold (round_step cand score) xs (\<lparr>features = cand x, mse = score (cand x)\<rparr>, Some x))))"
      by (intro Cons.IH) (simp_all add: Cons.prems(2))
    with True show ?thesis
      by (simp add: round_step_apply)
  next
    case False
    have "score_lt m (mse (fst (fold (round_step cand score) xs (b, s))))"
      by (intro Cons.IH) (simp_all add: Cons.prems)
    with False show ?thesis
      by (simp add: round_step_apply)
  qed
qed

lemma round_first_best:
  assumes m: "score (cand f) = m" and lt: "score_lt m (mse b)"
    and best: "\<And>g. g \<in> set (pre @ f # post) \<Longrightarrow> \<not> score_lt (score (cand g)) m"
    and first: "\<And>g. g \<in> set pre \<Longrightarrow> score (cand g) \<noteq> m"
  shows "fold (round_step cand score) (pre @ f # post) (b, s) = (\<lparr>features = cand f, mse = m\<rparr>, Some f)"
proof -
  obtain b1 s1 where p: "fold (round_step cand score) pre (b, s) = (b1, s1)"
    by (cases "fold (round_step cand score) pre (b, s)")
  have "score_lt m (mse (fst (fold (round_step cand score) pre (b, s))))"
    using lt best first by (intro round_keeps_above) auto
  with p have "score_lt m (mse b1)" by simp
  then have "round_step cand score f (b1, s1) = (\<lparr>features = cand f, mse = m\<rparr>, Some f)"
    using m by (simp add: round_step_apply)
  moreover have "fold (round_step cand score) post (\<lparr>features = cand f, mse = m\<rparr>, Some f) = (\<lparr>features = cand f, mse = m\<rparr>, Some f)"
    using best by (intro round_fix) simp
  ultimately show ?thesis using p by simp
qed

section \<open>Ties inside a round\<close>

lemma forward_round_fold:
  "forward_round score cur cands best = fold (round_step (\<lambda>f. cur @ [f]) score) cands (best, None)"
  by (simp add: forward_round_def forward_step_round_step)

lemma backward_round_fold:
  "backward_round score cur best = fold (round_step (\<lambda>f. filter (\<lambda>g. g \<noteq> f) cur) score) cur (best, None)"
  by (simp add: backward_round_def backward_step_round_step)

lemma forward_loop_continue:
  "cur \<noteq> all_features \<Longrightarrow> forward_round score cur (remaining set_order all_features cur) best = (best', Some f)
     \<Longrightarrow> truthy_feature f
     \<Longrightarrow> forward_loop set_order score all_features cur best n = forward_loop set_order score all_features (cur @ [f]) best' (Suc n)"
  by (subst forward_loop.simps) simp

lemma forward_loop_stop:
  "cur \<noteq> all_features \<Longrightarrow> forward_round score cur (remaining set_order all_features cur) best = (best', sel)
     \<Longrightarrow> sel = None \<or> sel = Some []
     \<Longrightarrow> forward_loop set_order score all_features cur best n = (cur, best', Suc n)"
  by (subst forward_loop.simps) (auto simp: truthy_feature_def)

lemma forward_loop_done:
  "forward_loop set_order score all_features all_features best n = (all_features, best, n)"
  by (subst forward_loop.simps) simp

lemma backward_loop_continue:
  "cur \<noteq> [] \<Longrightarrow> backward_round score cur best = (best', Some f) \<Longrightarrow> truthy_feature f
     \<Longrightarrow> backward_loop score cur best n = backward_loop score (remove1 f cur) best' (Suc n)"
  by (subst backward_loop.simps) simp

lemma backward_loop_stop:
  "cur \<noteq> [] \<Longrightarrow> backward_round score cur best = (best', sel) \<Longrightarrow> sel = None \<or> sel = Some []
     \<Longrightarrow> backward_loop score cur best n = (cur, best', Suc n)"
  by (subst backward_loop.simps) (auto simp: truthy_feature_def)

lemma backward_loop_done: "backward_loop score [] best n = ([], best, n)"
  by (subst backward_loop.simps) simp

text \<open>
  Claim C4, as the code has it. When a round improves on the incumbent and several
  features reach the round's best score, the feature evaluated first among them is the
  one selected: \<open>f\<close> is preceded by \<open>pre\<close> in the iteration order, its score is below
  the incumbent's, no candidate of the round scores strictly below it, and no candidate
  before it reaches its score. The round then ends with the subset \<open>cur @ [f]\<close> in the
  tracker and \<open>f\<close> selected, and (its name being non-empty) the loop goes on from
  \<open>cur @ [f]\<close>. Later candidates with the same score do not replace it.
\<close>

theorem forward_tie_first_wins:
  assumes "remaining set_order all_features cur = pre @ f # post"
    and "score_lt (score (cur @ [f])) (mse best)"
    and "\<forall>g \<in> set (pre @ f # post). \<not> score_lt (score (cur @ [g])) (score (cur @ [f]))"
    and "\<forall>g \<in> set pre. score (cur @ [g]) \<noteq> score (cur @ [f])"
    and "cur \<noteq> all_features" and "truthy_feature f"
  shows "forward_round score cur (remaining set_order all_features cur) best =
           (\<lparr>features = cur @ [f], mse = score (cur @ [f])\<rparr>, Some f)
       \<and> forward_loop set_order score all_features cur best n =
           forward_loop set_order score all_features (cur @ [f]) \<lparr>features = cur @ [f], mse = score (cur @ [f])\<rparr> (Suc n)"
proof -
  have r: "forward_round score cur (pre @ f # post) best =
      (\<lparr>features = cur @ [f], mse = score (cur @ [f])\<rparr>, Some f)"
    unfolding forward_round_fold using assms(2-4)
    by (intro round_first_best) auto
  with assms(1) have r': "forward_round score cur (remaining set_order all_features cur) best =
      (\<lparr>features = cur @ [f], mse = score (cur @ [f])\<rparr>, Some f)"
    by simp
  from forward_loop_continue [OF assms(5) r' assms(6)] r' show ?thesis by simp
qed

theorem forward_tie_first_wins_witness:
  "forward_round tied_scorer [] (remaining list_order [''A'', ''B''] []) (Solution_init (Fin 10)) =
     (\<lparr>features = [''A''], mse = Fin 5\<rparr>, Some ''A'')
   \<and> forward_loop list_order tied_scorer [''A'', ''B''] [] (Solution_init (Fin 10)) 0 =
     forward_loop list_order tied_scorer [''A'', ''B''] [''A''] \<lparr>features = [''A''], mse = Fin 5\<rparr> 1"
  using forward_tie_first_wins [of list_order "[''A'', ''B'']" "[]" "[]" "''A''" "[''B'']" tied_scorer "Solution_init (Fin 10)" 0]
  by (simp add: remaining_def list_order_def tied_scorer_def Solution_init_def truthy_feature_def)

text \<open>
  Claim C4, as it is written, fails: with two features tied at the best score of the
  first round, both below the baseline, the feature evaluated last (\<open>B\<close>) is not the
  one selected; \<open>A\<close>, evaluated first, is selected and appended.
\<close>

theorem forward_tie_last_counterexample:
  "remaining list_order [''A'', ''B''] [] = [''A'', ''B'']
   \<and> tied_scorer ([] @ [''A'']) = tied_scorer ([] @ [''B''])
   \<and> score_lt (tied_scorer ([] @ [''B''])) (mse (Solution_init (Fin 10)))
   \<and> snd (forward_round tied_scorer [] (remaining list_order [''A'', ''B''] []) (Solution_init (Fin 10))) = Some ''A''
   \<and> fst (forward_search list_order tied_scorer (Fin 10) [''A'', ''B'']) = [''A'']
   \<and> ''A'' \<noteq> ''B''"
  by code_simp

lemma round_rerun_no_change:
  "forward_round score cur cands (fst (forward_round score cur cands best)) =
     (fst (forward_round score cur cands best), None)
   \<and> backward_round score cur (fst (backward_round score cur best)) =
     (fst (backward_round score cur best), None)"
  unfolding forward_round_fold backward_round_fold by (simp add: round_idem)

section \<open>The state a search stops in\<close>

lemma forward_loop_final:
  "forward_loop set_order score all_features cur best n = (cur', best', n')
     \<Longrightarrow> forward_round score cur' (remaining set_order all_features cur') best' = (best', None)"
proof (induction set_order score all_features cur best n rule: forward_loop.induct)
  case (1 set_order score all_features cur best n)
  show ?case
  proof (cases "cur = all_features")
    case True
    with "1.prems" have "cur' = all_features" "best' = best"
      by (simp_all add: forward_loop_done)
    then show ?thesis
      by (simp add: remaining_def forward_round_def)
  next
    case False
    obtain b1 sel where r: "forward_round score cur (remaining set_order all_features cur) best = (b1, sel)"
      by (cases "forward_round score cur (remaining set_order all_features cur) best")
    show ?thesis
    proof (cases "\<exists>f. sel = Some f \<and> truthy_feature f")
      case True
      then obtain f where f: "sel = Some f" "truthy_feature f" by blast
      from forward_loop_continue [OF False r [unfolded f(1)] f(2)] "1.prems"
      have "forward_loop set_order score all_features (cur @ [f]) b1 (Suc n) = (cur', best', n')"
        by simp
      from "1.IH" [OF False r [symmetric] f(1) f(2) this] show ?thesis .
    next
      case False2: False
      then have "sel = None \<or> sel = Some []"
        by (cases sel) (auto simp: truthy_feature_def)
      from forward_loop_stop [OF False r this] "1.prems"
      have "cur' = cur" "best' = b1" by simp_all
      moreover have "forward_round score cur (remaining set_order all_features cur) (fst (forward_round score cur (remaining set_order all_features cur) best))
         = (fst (forward_round score cur (remaining set_order all_features cur) best), None)"
        using round_rerun_no_change by blast
      ultimately show ?thesis using r by simp
    qed
  qed
qed

lemma backward_loop_final:
  "backward_loop score cur best n = (cur', best', n') \<Longrightarrow> backward_round score cur' best' = (best', None)"
proof (induction score cur best n rule: backward_loop.induct)
  case (1 score cur best n)
  show ?case
  proof (cases "cur = []")
    case True
    with "1.prems" have "cur' = []" "best' = best"
      by (simp_all add: backward_loop_done)
    then show ?thesis
      by (simp add: backward_round_def)
  next
    case False
    obtain b1 sel where r: "backward_round score cur best = (b1, sel)"
      by (cases "backward_round score cur best")
    show ?thesis
    proof (cases "\<exists>f. sel = Some f \<and> truthy_feature f")
      case True
      then obtain f where f: "sel = Some f" "truthy_feature f" by blast
      from backward_loop_continue [OF False r [unfolded f(1)] f(2)] "1.prems"
      have "backward_loop score (remove1 f cur) b1 (Suc n) = (cur', best', n')"
        by simp
      moreover from False have "0 < length cur" by simp
      ultimately show ?thesis
        using "1.IH" [OF _ r [symmetric] f(1) f(2)] by blast
    next
      case False2: False
      then have "sel = None \<or> sel = Some []"
        by (cases sel) (auto simp: truthy_feature_def)
      from backward_loop_stop [OF False r this] "1.prems"
      have "cur' = cur" "best' = b1" by simp_all
      moreover have "backward_round score cur (fst (backward_round score cur best))
         = (fst (backward_round score cur best), None)"
        using round_rerun_no_change by blast
      ultimately show ?thesis using r by simp
    qed
  qed
qed

text \<open>
  Claim C8. Running a round once more, from the tracker the round has left and over the
  same candidates, changes nothing: the tracker is the same and no \<open>update\<close> succeeds
  (no feature is selected). This holds after every forward and every backward round, and
  in particular in the state either search stops in.
\<close>

theorem converged_rerun_no_change:
  "forward_round score cur cands (fst (forward_round score cur cands best)) =
     (fst (forward_round score cur cands best), None)
   \<and> backward_round score cur (fst (backward_round score cur best)) =
     (fst (backward_round score cur best), None)
   \<and> (forward_search set_order score baseline fs = (cur', best', n')
        \<longrightarrow> forward_round score cur' (remaining set_order fs cur') best' = (best', None))
   \<and> (backward_search score baseline fs = (cur', best', n')
        \<longrightarrow> backward_round score cur' best' = (best', None))"
  using round_rerun_no_change [of score cur cands best]
    forward_loop_final [of set_order score fs "[]" "Solution_init baseline" 0 cur' best' n']
    backward_loop_final [of score fs "Solution_init_backward baseline (Some fs) (Some (score fs))" 0 cur' best' n']
  unfolding forward_search_def backward_search_def by blast

lemma tied_forward_run:
  "forward_search list_order tied_scorer (Fin 10) [''A'', ''B''] = ([''A''], \<lparr>features = [''A''], mse = Fin 5\<rparr>, 2)"
  by code_simp

lemma tied_backward_run:
  "backward_search tied_scorer (Fin 10) [''A'', ''B''] = ([''A'', ''B''], \<lparr>features = [''A'', ''B''], mse = Fin 5\<rparr>, 1)"
  by code_simp

theorem converged_rerun_no_change_witness:
  "forward_round tied_scorer [''A''] (remaining list_order [''A'', ''B''] [''A'']) \<lparr>features = [''A''], mse = Fin 5\<rparr>
     = (\<lparr>features = [''A''], mse = Fin 5\<rparr>, None)
   \<and> backward_round tied_scorer [''A'', ''B''] \<lparr>features = [''A'', ''B''], mse = Fin 5\<rparr>
     = (\<lparr>features = [''A'', ''B''], mse = Fin 5\<rparr>, None)"
  using converged_rerun_no_change [of tied_scorer "[]" "[]" "Solution_init (Fin 10)" list_order "Fin 10" "[''A'', ''B'']"
      "[''A'']" "\<lparr>features = [''A''], mse = Fin 5\<rparr>" 2]
    converged_rerun_no_change [of tied_scorer "[]" "[]" "Solution_init (Fin 10)" list_order "Fin 10" "[''A'', ''B'']"
      "[''A'', ''B'']" "\<lparr>features = [''A'', ''B''], mse = Fin 5\<rparr>" 1]
  by (simp add: tied_forward_run tied_backward_run)

text \<open>
  Claim C10. When the feature recorded as the winner of a round is the empty string, the
  forward and the backward loop stop at the end of that round with the current subset
  as it was, although the tracker took a strictly better subset during the round: the
  test after the round is on the truth value of the feature, not on whether an
  improvement occurred.
\<close>

theorem falsy_feature_stops:
  "(cur \<noteq> all_features \<and> forward_round score cur (remaining set_order all_features cur) best = (best', Some [])
      \<longrightarrow> forward_loop set_order score all_features cur best n = (cur, best', Suc n)
          \<and> score_lt (mse best') (mse best))
   \<and> (cur \<noteq> [] \<and> backward_round score cur best = (best', Some [])
      \<longrightarrow> backward_loop score cur best n = (cur, best', Suc n)
          \<and> score_lt (mse best') (mse best))"
proof -
  have fw: "score_lt (mse best') (mse best)"
    if "forward_round score cur (remaining set_order all_features cur) best = (best', Some [])"
    using round_cases [OF that [unfolded forward_round_fold]] by auto
  have bw: "score_lt (mse best') (mse best)"
    if "backward_round score cur best = (best', Some [])"
    using round_cases [OF that [unfolded backward_round_fold]] by auto
  show ?thesis
    using fw bw
      forward_loop_stop [of cur all_features score set_order best best' "Some []" n]
      backward_loop_stop [of cur score best best' "Some []" n]
    by blast
qed

theorem falsy_feature_stops_witness:
  "forward_loop list_order tied_scorer [''''] [] (Solution_init (Fin 10)) 0 = ([], \<lparr>features = [''''], mse = Fin 5\<rparr>, 1)
   \<and> backward_loop tied_scorer [''''] \<lparr>features = [''''], mse = Fin 10\<rparr> 0 = ([''''], \<lparr>features = [], mse = Fin 5\<rparr>, 1)
   \<and> score_lt (Fin 5) (Fin 10)"
  using falsy_feature_stops [of "[]" "['''']" tied_scorer list_order "Solution_init (Fin 10)" "\<lparr>features = [''''], mse = Fin 5\<rparr>" 0]
    falsy_feature_stops [of "['''']" "[]" tied_scorer list_order "\<lparr>features = [''''], mse = Fin 10\<rparr>" "\<lparr>features = [], mse = Fin 5\<rparr>" 0]
  by (simp add: forward_round_def backward_round_def forward_step_def backward_step_def remaining_def list_order_def
      tied_scorer_def Solution_init_def update_def)

section \<open>Complete enumeration: the calls of the oracle\<close>

lemma filter_empty_subseqs: "filter (\<lambda>ys. ys = []) (subseqs xs) = [[]]"
  by (induction xs) (simp_all add: Let_def filter_map comp_def)

lemma combinations_subseqs: "combinations xs r = filter (\<lambda>ys. length ys = r) (subseqs xs)"
proof (induction xs r rule: combinations.induct)
  case (1 xs)
  show ?case by (simp add: filter_empty_subseqs)
next
  case (2 r)
  show ?case by simp
next
  case (3 x xs r)
  then show ?case by (simp add: Let_def filter_map comp_def)
qed

lemma length_combinations: "length (combinations xs r) = length xs choose r"
  by (induction xs r rule: combinations.induct) simp_all

lemma length_in_subseqs: "ys \<in> set (subseqs xs) \<Longrightarrow> length ys \<le> length xs"
  by (induction xs arbitrary: ys) (auto simp: Let_def intro: le_SucI)

lemma distinct_subseqs: "distinct xs \<Longrightarrow> distinct (subseqs xs)"
  using distinct_set_subseqs [of xs] by (simp add: distinct_map)

lemma inj_set_subseqs: "distinct xs \<Longrightarrow> inj_on set (set (subseqs xs))"
  using distinct_set_subseqs [of xs] by (simp add: distinct_map)

lemma set_calls_of: "set (calls_of fs) = set (subseqs fs) - {[]}"
proof -
  have "set (calls_of fs) = {ys \<in> set (subseqs fs). 1 \<le> length ys \<and> length ys < length fs + 1}"
    by (auto simp: calls_of_def combinations_subseqs)
  also have "\<dots> = set (subseqs fs) - {[]}"
    using length_in_subseqs [of _ fs] by (auto simp: Suc_le_eq less_Suc_eq_le)
  finally show ?thesis .
qed

lemma distinct_concat_by_key:
  "distinct S \<Longrightarrow> distinct ks \<Longrightarrow> distinct (concat (map (\<lambda>k. filter (\<lambda>y. h y = k) S) ks))"
  by (induction ks) auto

lemma distinct_calls_of: "distinct fs \<Longrightarrow> distinct (calls_of fs)"
proof -
  assume "distinct fs"
  then have "distinct (concat (map (\<lambda>k. filter (\<lambda>y. length y = k) (subseqs fs)) [1..<length fs + 1]))"
    by (intro distinct_concat_by_key distinct_subseqs) simp_all
  moreover have "combinations fs = (\<lambda>k. filter (\<lambda>y. length y = k) (subseqs fs))"
    by (intro ext) (rule combinations_subseqs)
  ultimately show ?thesis by (simp add: calls_of_def)
qed

lemma distinct_sets_calls_of: "distinct fs \<Longrightarrow> distinct (map set (calls_of fs))"
proof -
  assume d: "distinct fs"
  have "inj_on set (set (calls_of fs))"
    by (rule inj_on_subset [OF inj_set_subseqs [OF d]]) (simp add: set_calls_of)
  with distinct_calls_of [OF d] show ?thesis by (simp add: distinct_map)
qed

lemma sets_calls_of: "set ` set (calls_of fs) = {S. S \<subseteq> set fs \<and> S \<noteq> {}}"
proof -
  have "set ` (set (subseqs fs) - {[]}) = set ` set (subseqs fs) - {{}}"
    by auto
  then show ?thesis
    by (auto simp: set_calls_of subseqs_powset)
qed

lemma length_calls_of: "length (calls_of fs) = 2 ^ length fs - 1"
proof -
  let ?p = "length fs"
  have "length (calls_of fs) = (\<Sum>k\<leftarrow>[1..<?p + 1]. ?p choose k)"
    by (simp only: calls_of_def length_concat map_map comp_def length_combinations)
  also have "\<dots> = (\<Sum>k = 1..<?p + 1. ?p choose k)"
    by (simp only: interv_sum_list_conv_sum_set_nat set_upt)
  also have "\<dots> = (\<Sum>k\<le>?p. ?p choose k) - 1"
  proof -
    have "{..?p} = insert 0 {1..<?p + 1}" by auto
    then have "(\<Sum>k\<le>?p. ?p choose k) = (?p choose 0) + (\<Sum>k = 1..<?p + 1. ?p choose k)"
      by simp
    then show ?thesis by simp
  qed
  also have "\<dots> = 2 ^ ?p - 1"
    by (simp add: choose_row_sum)
  finally show ?thesis .
qed

lemma fold_evaluate:
  "fold (evaluate score) xs st = (run_updates (fst st) (map (\<lambda>s. (s, score s)) xs), snd st @ xs)"
  by (induction xs arbitrary: st) (simp_all add: evaluate_def)

lemma fold_fold_concat: "fold (\<lambda>n st. fold g (F n) st) ns st = fold g (concat (map F ns)) st"
  by (induction ns arbitrary: st) simp_all

lemma exhaustive_search_calls:
  "exhaustive_search score baseline fs =
     (run_updates (Solution_init baseline) (map (\<lambda>s. (s, score s)) (calls_of fs)), calls_of fs)"
  unfolding exhaustive_search_def calls_of_def
  by (subst fold_fold_concat) (simp only: fold_evaluate fst_conv snd_conv append_Nil)

text \<open>
  Claim C1. For a universe without repetition and any oracle, complete enumeration calls
  the oracle on the combinations of size 1, then of size 2, and so on up to the size of
  the universe, each size in the order of \<open>itertools.combinations\<close>; that makes
  \<open>2 ^ p - 1\<close> calls, no two of them on the same set of features, and the sets
  called on are exactly the non-empty subsets of the universe. The tracker returned is
  the result of offering every one of these subsets, in that order, to \<open>update\<close>:
  nothing ends the loops early.
\<close>

theorem exhaustive_complete:
  assumes "distinct fs"
  shows "snd (exhaustive_search score baseline fs) = concat (map (combinations fs) [1..<length fs + 1])
    \<and> length (snd (exhaustive_search score baseline fs)) = 2 ^ length fs - 1
    \<and> distinct (map set (snd (exhaustive_search score baseline fs)))
    \<and> set ` set (snd (exhaustive_search score baseline fs)) = {S. S \<subseteq> set fs \<and> S \<noteq> {}}
    \<and> fst (exhaustive_search score baseline fs) =
        run_updates (Solution_init baseline)
          (map (\<lambda>s. (s, score s)) (snd (exhaustive_search score baseline fs)))"
  using assms
  by (simp add: exhaustive_search_calls length_calls_of distinct_sets_calls_of sets_calls_of del: upt_Suc)
    (simp add: calls_of_def del: upt_Suc)

lemma toy_exhaustive_run:
  "exhaustive_search toy_scorer (Fin 10) [''A'', ''B'', ''C''] =
     (\<lparr>features = [''A'', ''B'', ''C''], mse = Fin 7\<rparr>,
      [[''A''], [''B''], [''C''], [''A'', ''B''], [''A'', ''C''], [''B'', ''C''], [''A'', ''B'', ''C'']])"
  by code_simp

theorem exhaustive_complete_witness:
  "snd (exhaustive_search toy_scorer (Fin 10) [''A'', ''B'', ''C'']) =
     [[''A''], [''B''], [''C''], [''A'', ''B''], [''A'', ''C''], [''B'', ''C''], [''A'', ''B'', ''C'']]
   \<and> length (snd (exhaustive_search toy_scorer (Fin 10) [''A'', ''B'', ''C''])) = 2 ^ 3 - 1
   \<and> fst (exhaustive_search toy_scorer (Fin 10) [''A'', ''B'', ''C'']) = \<lparr>features = [''A'', ''B'', ''C''], mse = Fin 7\<rparr>"
  using exhaustive_complete [of "[''A'', ''B'', ''C'']" toy_scorer "Fin 10"]
  by (simp add: toy_exhaustive_run)

section \<open>Runs on equal inputs, the number of rounds, the first tracker\<close>

lemma set_remaining: "set (remaining set_order all_features cur) = set all_features - set cur"
  by (auto simp: remaining_def)

lemma fold_round_step_cong:
  "(\<And>g. g \<in> set xs \<Longrightarrow> score1 (cand g) = score2 (cand g))
     \<Longrightarrow> fold (round_step cand score1) xs st = fold (round_step cand score2) xs st"
  by (rule fold_cong) (auto simp: round_step_def fun_eq_iff)

lemma round_selected_mem:
  "fold (round_step cand score) xs (b, None) = (b', Some f) \<Longrightarrow> f \<in> set xs"
  using round_cases [of cand score xs b None b' "Some f"] by auto

lemma forward_loop_cong:
  "(\<And>s. set s \<subseteq> set all_features \<Longrightarrow> score s = score2 s)
     \<Longrightarrow> (\<And>c. remaining set_order all_features c = remaining set_order2 all_features c)
     \<Longrightarrow> set cur \<subseteq> set all_features
     \<Longrightarrow> forward_loop set_order score all_features cur best n =
         forward_loop set_order2 score2 all_features cur best n"
proof (induction set_order score all_features cur best n rule: forward_loop.induct)
  case (1 set_order score all_features cur best n)
  show ?case
  proof (cases "cur = all_features")
    case True
    then show ?thesis by (simp add: forward_loop_done)
  next
    case False
    let ?xs = "remaining set_order all_features cur"
    obtain b1 sel where r: "forward_round score cur ?xs best = (b1, sel)"
      by (cases "forward_round score cur ?xs best")
    have "forward_round score2 cur ?xs best = forward_round score cur ?xs best"
      unfolding forward_round_fold
      by (rule fold_round_step_cong [symmetric]) (use "1.prems" in \<open>auto simp: set_remaining\<close>)
    with r "1.prems"(2) have r2: "forward_round score2 cur (remaining set_order2 all_features cur) best = (b1, sel)"
      by simp
    show ?thesis
    proof (cases "\<exists>f. sel = Some f \<and> truthy_feature f")
      case True
      then obtain f where f: "sel = Some f" "truthy_feature f" by blast
      from r f(1) have "f \<in> set ?xs"
        unfolding forward_round_fold by (auto dest: round_selected_mem)
      with "1.prems"(3) have sub: "set (cur @ [f]) \<subseteq> set all_features"
        by (simp add: set_remaining)
      have "forward_loop set_order score all_features (cur @ [f]) b1 (Suc n) =
          forward_loop set_order2 score2 all_features (cur @ [f]) b1 (Suc n)"
        by (rule "1.IH" [OF False r [symmetric] f(1) f(2) "1.prems"(1) "1.prems"(2) sub])
      with forward_loop_continue [OF False r [unfolded f(1)] f(2)]
        forward_loop_continue [OF False r2 [unfolded f(1)] f(2)]
      show ?thesis by simp
    next
      case False2: False
      then have "sel = None \<or> sel = Some []"
        by (cases sel) (auto simp: truthy_feature_def)
      with forward_loop_stop [OF False r] forward_loop_stop [OF False r2]
      show ?thesis by simp
    qed
  qed
qed

lemma backward_loop_cong:
  "(\<And>s. set s \<subseteq> set fs \<Longrightarrow> score s = score2 s) \<Longrightarrow> set cur \<subseteq> set fs
     \<Longrightarrow> backward_loop score cur best n = backward_loop score2 cur best n"
proof (induction score cur best n rule: backward_loop.induct)
  case (1 score cur best n)
  show ?case
  proof (cases "cur = []")
    case True
    then show ?thesis by (simp add: backward_loop_done)
  next
    case False
    obtain b1 sel where r: "backward_round score cur best = (b1, sel)"
      by (cases "backward_round score cur best")
    have "backward_round score2 cur best = backward_round score cur best"
      unfolding backward_round_fold
    proof (rule fold_round_step_cong [symmetric])
      fix g
      have "set (filter (\<lambda>h. h \<noteq> g) cur) \<subseteq> set fs"
        using "1.prems"(2) by auto
      then show "score (filter (\<lambda>h. h \<noteq> g) cur) = score2 (filter (\<lambda>h. h \<noteq> g) cur)"
        by (rule "1.prems"(1))
    qed
    with r have r2: "backward_round score2 cur best = (b1, sel)"
      by simp
    show ?thesis
    proof (cases "\<exists>f. sel = Some f \<and> truthy_feature f")
      case True
      then obtain f where f: "sel = Some f" "truthy_feature f" by blast
      have sub: "set (remove1 f cur) \<subseteq> set fs"
        using "1.prems"(2) set_remove1_subset [of f cur] by blast
      from False have pos: "0 < length cur" by simp
      have "backward_loop score (remove1 f cur) b1 (Suc n) = backward_loop score2 (remove1 f cur) b1 (Suc n)"
        by (rule "1.IH" [OF pos r [symmetric] f(1) f(2) "1.prems"(1) sub])
      with backward_loop_continue [OF False r [unfolded f(1)] f(2)]
        backward_loop_continue [OF False r2 [unfolded f(1)] f(2)]
      show ?thesis by simp
    next
      case False2: False
      then have "sel = None \<or> sel = Some []"
        by (cases sel) (auto simp: truthy_feature_def)
      with backward_loop_stop [OF False r] backward_loop_stop [OF False r2]
      show ?thesis by simp
    qed
  qed
qed

text \<open>
  Claim C9. Two runs of the forward search, or of the backward search, on the same
  universe and baseline, with oracles that return the same score on every subset of the
  universe and with the same iteration order in every round, select the same sequence
  of features, leave the same tracker and take the same number of rounds.
\<close>

theorem stepwise_deterministic:
  assumes "\<forall>s. set s \<subseteq> set fs \<longrightarrow> score1 s = score2 s"
    and "\<forall>cur. remaining order1 fs cur = remaining order2 fs cur"
  shows "forward_search order1 score1 baseline fs = forward_search order2 score2 baseline fs
    \<and> backward_search score1 baseline fs = backward_search score2 baseline fs"
proof -
  have fw: "forward_search order1 score1 baseline fs = forward_search order2 score2 baseline fs"
    unfolding forward_search_def using assms by (intro forward_loop_cong) auto
  have "score1 fs = score2 fs"
    using assms(1) by simp
  moreover have "backward_loop score1 fs b 0 = backward_loop score2 fs b 0" for b
    using assms(1) by (intro backward_loop_cong [of fs]) auto
  ultimately have "backward_search score1 baseline fs = backward_search score2 baseline fs"
    by (simp add: backward_search_def)
  with fw show ?thesis ..
qed

lemma masked_agrees: "\<forall>s. set s \<subseteq> set [''A'', ''B''] \<longrightarrow> toy_scorer s = masked_scorer s"
  by (auto simp: toy_scorer_def masked_scorer_def)

theorem stepwise_deterministic_witness:
  "forward_search list_order toy_scorer (Fin 10) [''A'', ''B''] = forward_search list_order masked_scorer (Fin 10) [''A'', ''B'']
   \<and> backward_search toy_scorer (Fin 10) [''A'', ''B''] = backward_search masked_scorer (Fin 10) [''A'', ''B'']
   \<and> toy_scorer [''Z''] \<noteq> masked_scorer [''Z'']"
proof -
  have "toy_scorer [''Z''] \<noteq> masked_scorer [''Z'']"
    by (simp add: toy_scorer_def masked_scorer_def)
  with stepwise_deterministic [OF masked_agrees, of list_order list_order "Fin 10"]
  show ?thesis by simp
qed

text \<open>
  The forward loop is total; its body runs at most once more than there are features
  left to add.
\<close>

lemma forward_rounds_bound:
  "snd (snd (forward_loop set_order score all_features cur best n)) \<le> n + card (set all_features - set cur) + 1"
proof (induction set_order score all_features cur best n rule: forward_loop.induct)
  case (1 set_order score all_features cur best n)
  show ?case
  proof (cases "cur = all_features")
    case True
    then show ?thesis by (simp add: forward_loop_done)
  next
    case False
    let ?xs = "remaining set_order all_features cur"
    obtain b1 sel where r: "forward_round score cur ?xs best = (b1, sel)"
      by (cases "forward_round score cur ?xs best")
    show ?thesis
    proof (cases "\<exists>f. sel = Some f \<and> truthy_feature f")
      case True
      then obtain f where f: "sel = Some f" "truthy_feature f" by blast
      from r f(1) have "f \<in> set ?xs"
        unfolding forward_round_fold by (auto dest: round_selected_mem)
      then have "f \<in> set all_features - set cur"
        by (simp add: set_remaining)
      then have "card (set all_features - set (cur @ [f])) < card (set all_features - set cur)"
        by (intro psubset_card_mono) auto
      with "1.IH" [OF False r [symmetric] f(1) f(2)]
        forward_loop_continue [OF False r [unfolded f(1)] f(2), of n]
      show ?thesis by simp
    next
      case False2: False
      then have "sel = None \<or> sel = Some []"
        by (cases sel) (auto simp: truthy_feature_def)
      with forward_loop_stop [OF False r, of n] show ?thesis by simp
    qed
  qed
qed

lemma forward_search_rounds_bound:
  "distinct fs \<Longrightarrow> snd (snd (forward_search set_order score baseline fs)) \<le> length fs + 1"
  using forward_rounds_bound [of set_order score fs "[]" "Solution_init baseline" 0]
  by (simp add: forward_search_def distinct_card)

text \<open>
  Claim C7 fails on the universe \<open>[A, B]\<close>, whatever the iteration order of the set:
  \<open>B\<close> is selected in the first round and \<open>A\<close> in the second, so that the current
  subset is \<open>[B, A]\<close>, which as a list differs from \<open>[A, B]\<close>; the body of the
  \<open>while\<close> loop runs a third time, over no candidate, and leaves through \<open>break\<close>.
  Three rounds for two features.
\<close>

theorem forward_extra_round:
  "forward_search set_order late_first_scorer (Fin 10) [''A'', ''B''] =
     ([''B'', ''A''], \<lparr>features = [''B'', ''A''], mse = Fin 0\<rparr>, 3)"
proof -
  let ?all = "[''A'', ''B'']"
  let ?b1 = "\<lparr>features = [''B''], mse = Fin 1\<rparr>"
  let ?b2 = "\<lparr>features = [''B'', ''A''], mse = Fin 0\<rparr>"
  have "remaining set_order ?all [] = [''A'', ''B''] \<or> remaining set_order ?all [] = [''B'', ''A'']"
    by (simp add: remaining_def)
  then have r1: "forward_round late_first_scorer [] (remaining set_order ?all []) (Solution_init (Fin 10)) = (?b1, Some ''B'')"
    by (auto simp: forward_round_def forward_step_def update_def Solution_init_def late_first_scorer_def)
  have "remaining set_order ?all [''B''] = [''A'']"
    by (simp add: remaining_def)
  then have r2: "forward_round late_first_scorer [''B''] (remaining set_order ?all [''B'']) ?b1 = (?b2, Some ''A'')"
    by (simp add: forward_round_def forward_step_def update_def late_first_scorer_def)
  have "remaining set_order ?all [''B'', ''A''] = []"
    by (simp add: remaining_def)
  then have r3: "forward_round late_first_scorer [''B'', ''A''] (remaining set_order ?all [''B'', ''A'']) ?b2 = (?b2, None)"
    by (simp add: forward_round_def)
  have "forward_search set_order late_first_scorer (Fin 10) ?all =
      forward_loop set_order late_first_scorer ?all [''B''] ?b1 (Suc 0)"
    unfolding forward_search_def
    using forward_loop_continue [OF _ r1, of 0] by (simp add: truthy_feature_def)
  also have "\<dots> = forward_loop set_order late_first_scorer ?all [''B'', ''A''] ?b2 (Suc (Suc 0))"
    using forward_loop_continue [OF _ r2, of "Suc 0"] by (simp add: truthy_feature_def)
  also have "\<dots> = ([''B'', ''A''], ?b2, Suc (Suc (Suc 0)))"
    using forward_loop_stop [OF _ r3, of "Suc (Suc 0)"] by simp
  finally show ?thesis by (simp add: numeral_3_eq_3)
qed

text \<open>With a non-empty universe and a score other than zero the tracker starts as given.\<close>

lemma Solution_init_backward_given:
  "fs \<noteq> [] \<Longrightarrow> m \<noteq> Fin 0 \<Longrightarrow> Solution_init_backward baseline (Some fs) (Some m) = \<lparr>features = fs, mse = m\<rparr>"
  by (simp add: Solution_init_backward_def truthy_score_def)

text \<open>
  Claim C5 fails when the oracle gives the full universe the error zero: the constructor
  tests \<open>mse\<close> for truthiness, zero is false, and the tracker starts from the empty
  subset with the baseline score. With a baseline of zero as well (a constant label
  column) no later subset is strictly better, and the search ends with the empty subset.
\<close>

theorem backward_init_zero_score:
  "Solution_init_backward baseline (Some [''A'', ''B'']) (Some (zero_scorer [''A'', ''B''])) = \<lparr>features = [], mse = baseline\<rparr>
   \<and> backward_search zero_scorer (Fin 0) [''A'', ''B''] = ([''A'', ''B''], \<lparr>features = [], mse = Fin 0\<rparr>, 1)"
  by (simp add: Solution_init_backward_def truthy_score_def zero_scorer_def backward_search_def
      backward_loop.simps backward_round_def backward_step_def update_def)

section \<open>The iteration order of a set; what a round selects\<close>

text \<open>
  The parameter \<open>set_order\<close> leaves the iteration order of the set open: every
  enumeration of the remaining features without repetition is the order of some
  \<open>set_order\<close>, namely of the position in that enumeration.
\<close>

lemma map_position: "distinct ys \<Longrightarrow> map (position ys) ys = [0..<length ys]"
proof (induction ys)
  case Nil
  show ?case by simp
next
  case (Cons y ys)
  have "map (position (y # ys)) ys = map (Suc \<circ> position ys) ys"
    using Cons.prems by (intro map_cong) (auto simp: position_def)
  also have "\<dots> = map Suc [0..<length ys]"
    using Cons by (simp flip: map_map)
  finally have "map (position (y # ys)) (y # ys) = 0 # map Suc [0..<length ys]"
    by (simp add: position_def)
  then show ?case
    by (simp add: map_Suc_upt upt_conv_Cons del: upt_Suc)
qed

lemma sort_key_position:
  assumes "distinct xs" "distinct ys" "set xs = set ys"
  shows "sort_key (position ys) xs = ys"
proof -
  let ?k = "position ys"
  let ?zs = "sort_key ?k xs"
  have inj: "inj_on ?k (set ys)"
    using map_position [OF assms(2)] distinct_map [of ?k ys] by simp
  have "sorted (map ?k ?zs)" by simp
  moreover have "distinct (map ?k ?zs)"
    using assms inj by (simp add: distinct_map)
  moreover have "sorted (map ?k ys)" "distinct (map ?k ys)"
    using map_position [OF assms(2)] by simp_all
  moreover have "set (map ?k ?zs) = set (map ?k ys)"
    using assms(3) by simp
  ultimately have "map ?k ?zs = map ?k ys"
    by (intro sorted_distinct_set_unique)
  moreover have "inj_on ?k (set ?zs \<union> set ys)"
    using inj assms(3) by simp
  ultimately show ?thesis
    by (simp add: inj_on_map_eq_map)
qed

lemma remaining_any_enumeration:
  assumes "distinct ys" and "set ys = set all_features - set cur"
  shows "remaining (\<lambda>c. position ys) all_features cur = ys"
  unfolding remaining_def using assms by (intro sort_key_position) auto

lemma distinct_remaining: "distinct (remaining set_order all_features cur)"
  by (simp add: remaining_def)

text \<open>
  A round that selects a feature selects one that is not yet in the current subset (one
  that is in it, for the backward search), and the tracker holds the subset built from it.
\<close>

lemma forward_round_selects_new:
  "forward_round score cur (remaining set_order all_features cur) best = (best', Some f)
     \<Longrightarrow> f \<in> set all_features \<and> f \<notin> set cur \<and> best' = \<lparr>features = cur @ [f], mse = score (cur @ [f])\<rparr>
         \<and> score_lt (mse best') (mse best)"
  unfolding forward_round_fold
  using round_cases [of "\<lambda>f. cur @ [f]" score "remaining set_order all_features cur" best None best' "Some f"]
  by (auto simp: set_remaining)

lemma backward_round_selects_present:
  "backward_round score cur best = (best', Some f)
     \<Longrightarrow> f \<in> set cur \<and> best' = \<lparr>features = filter (\<lambda>g. g \<noteq> f) cur, mse = score (filter (\<lambda>g. g \<noteq> f) cur)\<rparr>
         \<and> score_lt (mse best') (mse best)"
  unfolding backward_round_fold
  using round_cases [of "\<lambda>f. filter (\<lambda>g. g \<noteq> f) cur" score cur best None best' "Some f"]
  by auto

end
